theory Spec2Isabelle
  imports Complex_Main
begin

section \<open>NSGA-III: reference points, population size, replacement\<close>

text \<open>
  A shallow embedding of \<^verbatim>\<open>jmetal/algorithm/multiobjective/nsgaiii.py\<close>.
  Python integers are \<^typ>\<open>int\<close>; list lengths and loop indices that start at 0 and only
  grow are \<^typ>\<open>nat\<close>. The true division \<^verbatim>\<open>a / b\<close> of two integers is modelled by the
  exact quotient in \<^typ>\<open>rat\<close>: rounding to a binary float is not modelled. Every
  exception of the source is a value \<open>Inl e\<close> of the result type. The source's variable
  \<^verbatim>\<open>total\<close> is written \<open>tot\<close>.
\<close>

subsection \<open>Errors and primitive operations\<close>

datatype error = ZeroDivisionError | IndexError | InvalidRank

text \<open>\<^verbatim>\<open>a / b\<close> on Python integers: raises on a zero divisor.\<close>

definition py_truediv :: "int \<Rightarrow> int \<Rightarrow> error + rat" where
  "py_truediv a b = (if b = 0 then Inl ZeroDivisionError else Inr (of_int a / of_int b))"

text \<open>\<^verbatim>\<open>xs[i] = v\<close> for an index \<open>i \<ge> 0\<close>: raises when the index is out of range.\<close>

definition setitem :: "'a list \<Rightarrow> nat \<Rightarrow> 'a \<Rightarrow> error + 'a list" where
  "setitem xs i v = (if i < length xs then Inr (xs[i := v]) else Inl IndexError)"

subsection \<open>Reference points\<close>

text \<open>
  \<^verbatim>\<open>ReferencePoint(copy.deepcopy(position))\<close>: the class lives in \<^verbatim>\<open>jmetal.util.point\<close>;
  only the coordinate vector it is built from is modelled.
\<close>

datatype ReferencePoint = ReferencePoint (coordinates: "rat list")

text \<open>
  \<^verbatim>\<open>gen_refs_recursive(position, num_objs, left, total, element)\<close>, lines 67 to 76.
  The \<^verbatim>\<open>for i in range(left)\<close> loop is \<open>gen_refs_loop\<close>, with the loop variable \<open>i\<close> and
  the accumulator \<open>res\<close> as arguments. The source mutates one shared list \<^verbatim>\<open>position\<close>;
  a call writes index \<open>element\<close> before it recurses or copies, and the calls below it write
  only higher indices, which are written again before they are copied. So the model hands the
  updated list down and the copies taken at the leaves are the same.
\<close>

function gen_refs_recursive :: "rat list \<Rightarrow> int \<Rightarrow> int \<Rightarrow> int \<Rightarrow> nat \<Rightarrow> error + ReferencePoint list"
  and gen_refs_loop :: "rat list \<Rightarrow> int \<Rightarrow> int \<Rightarrow> int \<Rightarrow> nat \<Rightarrow> int \<Rightarrow> ReferencePoint list
                          \<Rightarrow> error + ReferencePoint list"
where
  "gen_refs_recursive position num_objs left tot element =
     (if int element = num_objs - 1 then
        (case py_truediv left tot of
           Inl e \<Rightarrow> Inl e
         | Inr v \<Rightarrow>
            (case setitem position element v of
               Inl e \<Rightarrow> Inl e
             | Inr position' \<Rightarrow> Inr [ReferencePoint position']))
      else gen_refs_loop position num_objs left tot element 0 [])"
| "gen_refs_loop position num_objs left tot element i res =
     (if i < left then
        (case py_truediv i tot of
           Inl e \<Rightarrow> Inl e
         | Inr v \<Rightarrow>
            (case setitem position element v of
               Inl e \<Rightarrow> Inl e
             | Inr position' \<Rightarrow>
                (case gen_refs_recursive position' num_objs (left - i) tot (element + 1) of
                   Inl e \<Rightarrow> Inl e
                 | Inr r \<Rightarrow> gen_refs_loop position' num_objs left tot element (i + 1) (res @ r))))
      else Inr res)"
  by pat_completeness auto
termination
  by (relation "inv_image (less_than <*lex*> less_than)
        (\<lambda>x. case x of
           Inl (position, num_objs, left, tot, element) \<Rightarrow>
             (length position - element, nat left + 1)
         | Inr (position, num_objs, left, tot, element, i, res) \<Rightarrow>
             (length position - element, nat (left - i)))")
     (auto simp: setitem_def split: if_splits)

text \<open>\<^verbatim>\<open>generate_reference_points(num_objs, num_divisions_per_obj=4)\<close>, lines 66 to 79.\<close>

definition generate_reference_points :: "int \<Rightarrow> int \<Rightarrow> error + ReferencePoint list" where
  "generate_reference_points num_objs num_divisions_per_obj =
     gen_refs_recursive (replicate (nat num_objs) 0) num_objs
       (num_objs * num_divisions_per_obj) (num_objs * num_divisions_per_obj) 0"

subsection \<open>The algorithm object and its construction\<close>

text \<open>
  \<^verbatim>\<open>problem.number_of_objectives\<close> is the only attribute of the problem that the class reads.
\<close>

record Problem =
  number_of_objectives :: int

text \<open>
  The attributes of an \<^verbatim>\<open>NSGAIII\<close> object that the methods below read or write.
  \<open>'s\<close> is the type of solutions and \<open>'c\<close> the type of the dominance comparator.
\<close>

record ('s, 'c) NSGAIII =
  problem :: Problem
  solutions :: "'s list"
  dominance_comparator :: 'c
  reference_points :: "ReferencePoint list"
  population_size :: int
  offspring_population_size :: int

text \<open>
  Lines 61 and 62: \<^verbatim>\<open>while self.population_size % 4 > 0: self.population_size += 1\<close>,
  with the attribute as the argument \<open>n\<close>. Python's \<^verbatim>\<open>%\<close> with a positive modulus is \<open>mod\<close> on \<^typ>\<open>int\<close>.
\<close>

function population_size_loop :: "int \<Rightarrow> int" where
  "population_size_loop n =
     (if n mod 4 > 0 then population_size_loop (n + 1)
      else n)"
  by pat_completeness auto
termination
proof (relation "measure (\<lambda>n. nat ((- n) mod 4))")
  show "wf (measure (\<lambda>n. nat ((- n) mod 4)))" by simp
next
  fix n :: int
  assume "0 < n mod 4"
  then have "(- n) mod 4 = (- (n + 1)) mod 4 + 1" by presburger
  moreover have "0 \<le> (- (n + 1)) mod 4" by simp
  ultimately show "(n + 1, n) \<in> measure (\<lambda>n. nat ((- n) mod 4))"
    by simp
qed

text \<open>
  \<^verbatim>\<open>NSGAIII.__init__\<close>, lines 46 to 64. The base class \<^verbatim>\<open>NSGAII\<close> is not among the sources:
  \<open>self\<close> is the object as \<^verbatim>\<open>super().__init__\<close> leaves it (with both sizes 0), and the
  constructor then sets the four attributes below. The reference points are generated with the
  default \<^verbatim>\<open>num_divisions_per_obj = 4\<close>.
\<close>

definition NSGAIII_init :: "('s, 'c) NSGAIII \<Rightarrow> Problem \<Rightarrow> 'c \<Rightarrow> error + ('s, 'c) NSGAIII" where
  "NSGAIII_init self prob comparator =
     (case generate_reference_points (number_of_objectives prob) 4 of
        Inl e \<Rightarrow> Inl e
      | Inr points \<Rightarrow>
          (let psize = population_size_loop (int (length points)) in
           Inr (self\<lparr>dominance_comparator := comparator,
                     reference_points := points,
                     population_size := psize,
                     offspring_population_size := psize\<rparr>)))"

subsection \<open>Ranking\<close>

text \<open>
  Modelled from the spec: \<^verbatim>\<open>FastNonDominatedRanking\<close> (\<^verbatim>\<open>jmetal/util/ranking.py\<close>) is not
  among the sources. A ranking is its ordered sequence of fronts; \<^verbatim>\<open>get_subfront(rank)\<close> reads
  front \<open>rank\<close>, and asking for a front that does not exist raises.
\<close>

definition get_subfront :: "'s list list \<Rightarrow> nat \<Rightarrow> error + 's list" where
  "get_subfront ranked_sublists rank =
     (if rank < length ranked_sublists then Inr (ranked_sublists ! rank) else Inl InvalidRank)"

text \<open>
  Modelled from the spec: the fast non-dominated sort of section 4.2, which
  \<^verbatim>\<open>compute_ranking\<close> implements outside the sources. The comparator is the predicate
  "the first solution dominates the second". Solutions are addressed by their index in the
  input, so equal solutions stay apart. The dominance count of a solution is the number of
  solutions that dominate it; front 0 holds the solutions with count 0; taking a front out
  decrements the counts of the solutions it dominates, so the count of a solution that is
  still unranked is the number of unranked solutions that dominate it, and the next front
  collects those whose count has reached 0. The sort ends when no solution is collected.
\<close>

definition dominance_count :: "('s \<Rightarrow> 's \<Rightarrow> bool) \<Rightarrow> 's list \<Rightarrow> nat list \<Rightarrow> nat \<Rightarrow> nat" where
  "dominance_count dominates xs unranked q =
     length (filter (\<lambda>p. dominates (xs ! p) (xs ! q)) unranked)"

function peel_fronts :: "('s \<Rightarrow> 's \<Rightarrow> bool) \<Rightarrow> 's list \<Rightarrow> nat list \<Rightarrow> nat list list" where
  "peel_fronts dominates xs unranked =
     (let front = filter (\<lambda>q. dominance_count dominates xs unranked q = 0) unranked in
      if front = [] then []
      else front # peel_fronts dominates xs (filter (\<lambda>q. q \<notin> set front) unranked))"
  by pat_completeness auto
termination
proof (relation "measure (\<lambda>(dominates, xs, unranked). length unranked)")
  show "wf (measure (\<lambda>(dominates :: 's \<Rightarrow> 's \<Rightarrow> bool, xs :: 's list, unranked :: nat list).
              length unranked))"
    by simp
next
  fix dominates :: "'s \<Rightarrow> 's \<Rightarrow> bool" and xs :: "'s list" and unranked front :: "nat list"
  assume front: "front = filter (\<lambda>q. dominance_count dominates xs unranked q = 0) unranked"
    and ne: "front \<noteq> []"
  from ne obtain q where q: "q \<in> set front" by (cases front) auto
  with front have "q \<in> set unranked" by auto
  with q have "length (filter (\<lambda>q. q \<notin> set front) unranked) < length unranked"
    by (intro length_filter_less[of q]) auto
  then show "((dominates, xs, filter (\<lambda>q. q \<notin> set front) unranked), (dominates, xs, unranked))
               \<in> measure (\<lambda>(dominates, xs, unranked). length unranked)"
    by simp
qed

definition compute_ranking :: "('s \<Rightarrow> 's \<Rightarrow> bool) \<Rightarrow> 's list \<Rightarrow> 's list list" where
  "compute_ranking dominates xs =
     map (map (\<lambda>q. xs ! q)) (peel_fronts dominates xs [0..<length xs])"

subsection \<open>Replacement and result extraction\<close>

text \<open>
  The \<^verbatim>\<open>while\<close> loop of \<^verbatim>\<open>replacement\<close>, lines 97 to 102, with the loop state
  \<^verbatim>\<open>ranking_index\<close> and \<^verbatim>\<open>pop\<close> as arguments and \<^verbatim>\<open>self.population_size\<close> as
  \<open>psize\<close>; \<^verbatim>\<open>break\<close> and the failed loop test both return the state.
\<close>

function replacement_loop :: "int \<Rightarrow> 's list list \<Rightarrow> nat \<Rightarrow> 's list \<Rightarrow> error + (nat \<times> 's list)" where
  "replacement_loop psize ranking ranking_index pop =
     (if int (length pop) < psize then
        (case get_subfront ranking ranking_index of
           Inl e \<Rightarrow> Inl e
         | Inr front \<Rightarrow>
             if int (length front) < psize - int (length pop)
             then replacement_loop psize ranking (ranking_index + 1) (pop @ front)
             else Inr (ranking_index, pop))
      else Inr (ranking_index, pop))"
  by pat_completeness auto
termination
  by (relation "measure (\<lambda>(psize, ranking, ranking_index, pop).
                   length ranking - ranking_index)")
     (auto simp: get_subfront_def split: if_splits)

text \<open>
  \<^verbatim>\<open>replacement\<close>, lines 91 to 108, up to the call of the selection: the survivors
  accumulated so far, and the arguments \<open>k\<close> and \<open>front\<close> with which
  \<^verbatim>\<open>EnvironmentalSelection(..., k).execute(front)\<close> is called. The ranking is a parameter
  \<open>compute\<close>, from the comparator and the solutions to the fronts.
\<close>

definition selection_call ::
  "('c \<Rightarrow> 's list \<Rightarrow> 's list list) \<Rightarrow> ('s, 'c) NSGAIII \<Rightarrow> 's list \<Rightarrow> 's list
     \<Rightarrow> error + (nat \<times> 's list \<times> int \<times> 's list)" where
  "selection_call compute self population offspring_population =
     (let ranking = compute (dominance_comparator self) (population @ offspring_population) in
      case replacement_loop (population_size self) ranking 0 [] of
        Inl e \<Rightarrow> Inl e
      | Inr (ranking_index, pop) \<Rightarrow>
          (let k = population_size self - int (length pop) in
           case get_subfront ranking ranking_index of
             Inl e \<Rightarrow> Inl e
           | Inr front \<Rightarrow> Inr (ranking_index, pop, k, front)))"

text \<open>
  \<^verbatim>\<open>replacement\<close>, lines 81 to 110. \<^verbatim>\<open>EnvironmentalSelection\<close>
  (\<^verbatim>\<open>jmetal/operator/selection.py\<close>) is not among the sources: \<open>execute\<close> stands for
  building the operator from the number of objectives, the reference points and \<open>k\<close> and
  running it on the front; it returns the selected solutions or raises.
\<close>

definition replacement ::
  "('c \<Rightarrow> 's list \<Rightarrow> 's list list) \<Rightarrow> (int \<Rightarrow> ReferencePoint list \<Rightarrow> int \<Rightarrow> 's list \<Rightarrow> error + 's list)
     \<Rightarrow> ('s, 'c) NSGAIII \<Rightarrow> 's list \<Rightarrow> 's list \<Rightarrow> error + 's list" where
  "replacement compute execute self population offspring_population =
     (case selection_call compute self population offspring_population of
        Inl e \<Rightarrow> Inl e
      | Inr (ranking_index, pop, k, front) \<Rightarrow>
          (case execute (number_of_objectives (problem self)) (reference_points self) k front of
             Inl e \<Rightarrow> Inl e
           | Inr selected \<Rightarrow> Inr (pop @ selected)))"

text \<open>\<^verbatim>\<open>get_result\<close>, lines 112 to 116.\<close>

definition get_result :: "('c \<Rightarrow> 's list \<Rightarrow> 's list list) \<Rightarrow> ('s, 'c) NSGAIII \<Rightarrow> error + 's list" where
  "get_result compute self = get_subfront (compute (dominance_comparator self) (solutions self)) 0"

text \<open>
  The contract of the selection, as the spec states it: given \<open>0 \<le> k \<le> |front|\<close>, it
  returns exactly \<open>k\<close> solutions of the front.
\<close>

definition selection_contract ::
  "(int \<Rightarrow> ReferencePoint list \<Rightarrow> int \<Rightarrow> 's list \<Rightarrow> error + 's list) \<Rightarrow> bool" where
  "selection_contract execute \<longleftrightarrow>
     (\<forall>m points k front. 0 \<le> k \<and> k \<le> int (length front) \<longrightarrow>
        (\<exists>selected. execute m points k front = Inr selected
            \<and> int (length selected) = k \<and> set selected \<subseteq> set front))"

subsection \<open>The lattice enumerated by the generator\<close>

text \<open>
  The integer numerators that one call of \<open>gen_refs_recursive\<close> enumerates, for \<open>n + 1\<close>
  coordinates still to fill and \<open>left\<close> units still to hand out: the loop variable runs over
  \<^verbatim>\<open>range(left)\<close>, that is \<open>0, \<dots>, left - 1\<close>, and the last coordinate takes what is left.
  \<open>mk\<close> is the point copied at a leaf: the coordinates below \<open>el\<close> as they are in
  \<open>pos\<close>, then the numerators divided by \<open>tot\<close>.
\<close>

fun comps :: "nat \<Rightarrow> int \<Rightarrow> int list list" where
  "comps 0 left = [[left]]"
| "comps (Suc n) left = concat (map (\<lambda>i. map ((#) i) (comps n (left - i))) [0..left - 1])"

definition mk :: "rat list \<Rightarrow> int \<Rightarrow> nat \<Rightarrow> int list \<Rightarrow> ReferencePoint" where
  "mk pos tot el c = ReferencePoint (take el pos @ map (\<lambda>k. of_int k / of_int tot) c @ drop (el + length c) pos)"

subsection \<open>A concrete instance\<close>

text \<open>
  Modelled from the spec: the domination rule of section 4.2 on objective vectors, for
  minimisation. \<open>a\<close> dominates \<open>b\<close> when it is no worse in every objective and strictly
  better in at least one. The comparator class is not among the sources.
\<close>

definition pareto_dominates :: "int list \<Rightarrow> int list \<Rightarrow> bool" where
  "pareto_dominates a b \<longleftrightarrow> list_all2 (\<le>) a b \<and> list_ex (\<lambda>(x, y). x < y) (zip a b)"

text \<open>
  A selection that keeps the first \<open>k\<close> solutions of the front. It stands in for
  \<^verbatim>\<open>EnvironmentalSelection\<close> in the examples: it meets the contract above.
\<close>

definition first_k :: "int \<Rightarrow> ReferencePoint list \<Rightarrow> int \<Rightarrow> 's list \<Rightarrow> error + 's list" where
  "first_k m points k front = Inr (take (nat k) front)"

text \<open>
  An algorithm object for one objective, as the constructor leaves it: one reference point
  and a population size of 4. Its solutions are objective vectors.
\<close>

definition example_algorithm :: "(int list, int list \<Rightarrow> int list \<Rightarrow> bool) NSGAIII" where
  "example_algorithm =
     \<lparr>problem = \<lparr>number_of_objectives = 1\<rparr>, solutions = [[3], [1], [4], [1]],
      dominance_comparator = pareto_dominates, reference_points = [ReferencePoint [1]],
      population_size = 4, offspring_population_size = 4\<rparr>"

section \<open>Properties\<close>

subsection \<open>What the generator computes\<close>

declare gen_refs_recursive.simps [simp del] gen_refs_loop.simps [simp del]

lemma map_mk_comps_Suc:
  "map (mk pos tot el) (comps (Suc n) left)
     = concat (map (\<lambda>j. map (\<lambda>c. mk pos tot el (j # c)) (comps n (left - j))) [0..left - 1])"
  by (simp add: map_concat comp_def)

lemma mk_update_below:
  "el < length pos \<Longrightarrow> mk (pos[el := of_int j / of_int tot]) tot (Suc el) c = mk pos tot el (j # c)"
  by (simp add: mk_def take_Suc_conv_app_nth)

lemma mk_update_same:
  "mk (pos[el := v]) tot el (j # c) = mk pos tot el (j # c)"
  by (simp add: mk_def)

lemma gen_char:
  "(int element < num_objs \<longrightarrow> nat num_objs \<le> length position \<longrightarrow> tot \<noteq> 0 \<longrightarrow>
      gen_refs_recursive position num_objs left tot element
        = Inr (map (mk position tot element) (comps (nat num_objs - 1 - element) left)))"
  "(int element < num_objs - 1 \<longrightarrow> nat num_objs \<le> length position \<longrightarrow> tot \<noteq> 0 \<longrightarrow>
      gen_refs_loop position num_objs left tot element i res
        = Inr (res @ concat (map (\<lambda>j. map (\<lambda>c. mk position tot element (j # c))
                 (comps (nat num_objs - 2 - element) (left - j))) [i..left - 1])))"
proof (induction position num_objs left tot element and position num_objs left tot element i res
       rule: gen_refs_recursive_gen_refs_loop.induct)
  case (1 position num_objs left tot element)
  show ?case
  proof (intro impI)
    assume a: "int element < num_objs" "nat num_objs \<le> length position" "tot \<noteq> 0"
    show "gen_refs_recursive position num_objs left tot element
        = Inr (map (mk position tot element) (comps (nat num_objs - 1 - element) left))"
    proof (cases "int element = num_objs - 1")
      case True
      then have "nat num_objs - 1 - element = 0" by simp
      moreover have "element < length position" using a by linarith
      ultimately show ?thesis using True a
        by (subst gen_refs_recursive.simps)
           (simp add: py_truediv_def setitem_def mk_def upd_conv_take_nth_drop)
    next
      case False
      then have lt: "int element < num_objs - 1" using a by simp
      then have d: "nat num_objs - 1 - element = Suc (nat num_objs - 2 - element)" by linarith
      from 1 False lt a have "gen_refs_loop position num_objs left tot element 0 []
        = Inr ([] @ concat (map (\<lambda>j. map (\<lambda>c. mk position tot element (j # c))
                 (comps (nat num_objs - 2 - element) (left - j))) [0..left - 1]))" by blast
      moreover have "gen_refs_recursive position num_objs left tot element
                       = gen_refs_loop position num_objs left tot element 0 []"
        using False by (subst gen_refs_recursive.simps) simp
      ultimately show ?thesis
        unfolding d map_mk_comps_Suc by simp
    qed
  qed
next
  case (2 position num_objs left tot element i res)
  show ?case
  proof (intro impI)
    assume a: "int element < num_objs - 1" "nat num_objs \<le> length position" "tot \<noteq> 0"
    let ?v = "(of_int i / of_int tot) :: rat"
    let ?p = "position[element := ?v]"
    let ?F = "\<lambda>pos j. map (\<lambda>c. mk pos tot element (j # c)) (comps (nat num_objs - 2 - element) (left - j))"
    show "gen_refs_loop position num_objs left tot element i res
        = Inr (res @ concat (map (?F position) [i..left - 1]))"
    proof (cases "i < left")
      case False
      then show ?thesis by (subst gen_refs_loop.simps) simp
    next
      case True
      have el: "element < length position" using a by linarith
      have tv: "py_truediv i tot = Inr ?v" using a by (simp add: py_truediv_def)
      have sv: "setitem position element ?v = Inr ?p" using el by (simp add: setitem_def)
      have d: "nat num_objs - 1 - (element + 1) = nat num_objs - 2 - element" by simp
      have g: "gen_refs_recursive ?p num_objs (left - i) tot (element + 1)
                 = Inr (map (mk ?p tot (element + 1)) (comps (nat num_objs - 2 - element) (left - i)))"
        using "2.IH"(1)[OF True tv sv] a d by simp
      have g': "map (mk ?p tot (element + 1)) (comps (nat num_objs - 2 - element) (left - i)) = ?F position i"
        using el by (simp add: mk_update_below)
      have g2: "gen_refs_recursive ?p num_objs (left - i) tot (element + 1) = Inr (?F position i)"
        using g unfolding g' .
      have l: "gen_refs_loop ?p num_objs left tot element (i + 1) (res @ ?F position i)
                 = Inr ((res @ ?F position i) @ concat (map (?F ?p) [i + 1..left - 1]))"
        using "2.IH"(2)[OF True tv sv g2] a by simp
      have u: "[i..left - 1] = i # [i + 1..left - 1]" using True by (simp add: upto_rec1)
      have "gen_refs_loop position num_objs left tot element i res
              = gen_refs_loop ?p num_objs left tot element (i + 1) (res @ ?F position i)"
        using True by (subst gen_refs_loop.simps) (simp only: tv sv g2 sum.case if_True)
      then show ?thesis using l u by (simp add: mk_update_same)
    qed
  qed
qed


lemma comps_length_elem: "c \<in> set (comps n left) \<Longrightarrow> length c = Suc n"
  by (induction n arbitrary: left c) auto

lemma comps_props:
  "c \<in> set (comps n left) \<Longrightarrow> 1 \<le> left \<Longrightarrow>
     sum_list c = left \<and> (\<forall>k\<in>set c. 0 \<le> k) \<and> c \<noteq> [] \<and> 1 \<le> last c"
proof (induction n arbitrary: left c)
  case 0
  then show ?case by simp
next
  case (Suc n)
  from Suc.prems(1) obtain i c' where i: "0 \<le> i" "i \<le> left - 1" and c: "c = i # c'"
    and c': "c' \<in> set (comps n (left - i))"
    by auto
  from i have "1 \<le> left - i" by simp
  from Suc.IH[OF c' this] i c show ?case by auto
qed

lemma sum_upto_nat:
  "sum_list (map f [0..int m - 1]) = (\<Sum>i<m. f (int i))"
proof (induction m)
  case 0
  then show ?case by simp
next
  case (Suc m)
  have "[0..int (Suc m) - 1] = [0..int m - 1] @ [int m]"
    using upto_rec2[of 0 "int m"] by simp
  then show ?case using Suc by simp
qed

lemma hockey_stick: "(\<Sum>i<m. (i + n) choose n) = (m + n) choose Suc n"
  by (induction m) simp_all

lemma length_comps: "length (comps n left) = nat (left + int n - 1) choose n"
proof (induction n arbitrary: left)
  case 0
  then show ?case by simp
next
  case (Suc n)
  show ?case
  proof (cases "left \<le> 0")
    case True
    then have "nat (left + int (Suc n) - 1) < Suc n" by linarith
    then show ?thesis using True by (simp add: binomial_eq_0)
  next
    case False
    then obtain m where m: "left = int m" "0 < m"
      by (metis not_le zero_less_imp_eq_int)
    have "length (comps (Suc n) left)
            = sum_list (map (\<lambda>i. nat (left - i + int n - 1) choose n) [0..int m - 1])"
      using m by (simp add: length_concat comp_def Suc.IH)
    also have "\<dots> = (\<Sum>i<m. nat (int m - int i + int n - 1) choose n)"
      using m by (simp add: sum_upto_nat)
    also have "\<dots> = (\<Sum>i<m. (m - Suc i + n) choose n)"
    proof (rule sum.cong)
      fix i assume "i \<in> {..<m}"
      then have "nat (int m - int i + int n - 1) = m - Suc i + n" by auto
      then show "nat (int m - int i + int n - 1) choose n = (m - Suc i + n) choose n" by simp
    qed simp
    also have "\<dots> = (\<Sum>i<m. (i + n) choose n)"
      by (rule sum.nat_diff_reindex)
    also have "\<dots> = (m + n) choose Suc n"
      by (rule hockey_stick)
    finally show ?thesis using m by (simp add: nat_add_distrib)
  qed
qed

lemma generate_char:
  assumes "1 \<le> M" "H \<noteq> 0"
  shows "generate_reference_points M H
           = Inr (map (\<lambda>c. ReferencePoint (map (\<lambda>k. of_int k / of_int (M * H)) c))
                    (comps (nat M - 1) (M * H)))"
proof -
  have "gen_refs_recursive (replicate (nat M) 0) M (M * H) (M * H) 0
          = Inr (map (mk (replicate (nat M) 0) (M * H) 0) (comps (nat M - 1 - 0) (M * H)))"
    using gen_char(1)[of 0 M "replicate (nat M) 0" "M * H" "M * H"] assms by simp
  moreover have "map (mk (replicate (nat M) 0) (M * H) 0) (comps (nat M - 1) (M * H))
      = map (\<lambda>c. ReferencePoint (map (\<lambda>k. of_int k / of_int (M * H)) c)) (comps (nat M - 1) (M * H))"
  proof (rule map_cong[OF refl])
    fix c assume "c \<in> set (comps (nat M - 1) (M * H))"
    then have "length c = nat M" using comps_length_elem[of c "nat M - 1" "M * H"] assms by simp
    then show "mk (replicate (nat M) 0) (M * H) 0 c = ReferencePoint (map (\<lambda>k. of_int k / of_int (M * H)) c)"
      by (simp add: mk_def)
  qed
  ultimately show ?thesis by (simp add: generate_reference_points_def)
qed


lemma generate_nonpositive:
  assumes "2 \<le> M" "H \<le> 0"
  shows "generate_reference_points M H = Inr []"
proof -
  have "M * H \<le> 0" using assms by (simp add: mult_nonneg_nonpos)
  then show ?thesis using assms
    unfolding generate_reference_points_def
    by (subst gen_refs_recursive.simps, subst gen_refs_loop.simps) simp
qed

lemma generate_length:
  assumes "1 \<le> M" "H \<noteq> 0"
  shows "\<exists>ps. generate_reference_points M H = Inr ps
            \<and> length ps = nat (M * H + M - 2) choose nat (M - 1)"
proof -
  have "int (nat M - 1) = M - 1" using assms by simp
  then have "nat (M * H + int (nat M - 1) - 1) = nat (M * H + M - 2)" by simp
  moreover have "nat M - 1 = nat (M - 1)" using assms by simp
  ultimately show ?thesis
    using generate_char[OF assms] by (simp add: length_comps)
qed

lemma generate_2_4:
  "generate_reference_points 2 4 =
     Inr [ReferencePoint [0, 1], ReferencePoint [1 / 8, 7 / 8], ReferencePoint [1 / 4, 3 / 4],
          ReferencePoint [3 / 8, 5 / 8], ReferencePoint [1 / 2, 1 / 2], ReferencePoint [5 / 8, 3 / 8],
          ReferencePoint [3 / 4, 1 / 4], ReferencePoint [7 / 8, 1 / 8]]"
  by code_simp

subsection \<open>Number of reference points\<close>

text \<open>
  Claim C1 says that \<open>M\<close> objectives and \<open>H\<close> divisions give \<open>C(H + M - 1, M - 1)\<close> reference
  points, the size of the complete simplex lattice. The code at \<open>M = 2\<close>, \<open>H = 4\<close> returns
  8 points, not \<open>C(5, 1) = 5\<close>: the recursion hands out \<open>M * H = 8\<close> units, and the loop over
  \<^verbatim>\<open>range(left)\<close> stops one short, so the point \<open>(0, 1)\<close> is generated and its mirror image
  \<open>(1, 0)\<close> is not.
\<close>

theorem generate_reference_points_2_4_count:
  "\<exists>ps. generate_reference_points 2 4 = Inr ps \<and> length ps = 8
      \<and> ReferencePoint [0, 1] \<in> set ps \<and> ReferencePoint [1, 0] \<notin> set ps"
  unfolding generate_2_4 by simp

subsection \<open>A single objective\<close>

text \<open>
  Claim C7. For one objective and the default four divisions the generator returns exactly
  one reference point, whose single coordinate is 1.
\<close>

theorem single_objective_point: "generate_reference_points 1 4 = Inr [ReferencePoint [1]]"
  by (simp add: generate_reference_points_def gen_refs_recursive.simps py_truediv_def
      setitem_def)

declare population_size_loop.simps [simp del] replacement_loop.simps [simp del]
  peel_fronts.simps [simp del]

subsection \<open>Coordinates of the reference points\<close>

lemma generate_points:
  assumes "1 \<le> M" "1 \<le> H"
  shows "\<exists>ps. generate_reference_points M H = Inr ps
            \<and> (\<forall>p\<in>set ps. \<exists>c. coordinates p = map (\<lambda>k. of_int k / of_int (M * H)) c
                   \<and> length c = nat M \<and> sum_list c = M * H \<and> (\<forall>k\<in>set c. 0 \<le> k)
                   \<and> c \<noteq> [] \<and> 1 \<le> last c)"
proof -
  have pos: "1 \<le> M * H" using assms by (metis mult_mono mult_1 zero_le_one order_trans)
  have H: "H \<noteq> 0" using assms by simp
  let ?ps = "map (\<lambda>c. ReferencePoint (map (\<lambda>k. of_int k / of_int (M * H)) c))
                    (comps (nat M - 1) (M * H))"
  have "generate_reference_points M H = Inr ?ps" using generate_char[OF assms(1) H] .
  moreover have "\<exists>c. coordinates p = map (\<lambda>k. of_int k / of_int (M * H)) c
                   \<and> length c = nat M \<and> sum_list c = M * H \<and> (\<forall>k\<in>set c. 0 \<le> k)
                   \<and> c \<noteq> [] \<and> 1 \<le> last c" if "p \<in> set ?ps" for p
  proof -
    from that obtain c where c: "c \<in> set (comps (nat M - 1) (M * H))"
      and p: "p = ReferencePoint (map (\<lambda>k. of_int k / of_int (M * H)) c)" by auto
    have "length c = nat M" using comps_length_elem[OF c] assms by simp
    with comps_props[OF c pos] p show ?thesis by auto
  qed
  ultimately show ?thesis by blast
qed

lemma generate_single_objective:
  assumes "H \<noteq> 0"
  shows "generate_reference_points 1 H = Inr [ReferencePoint [1]]"
  using assms
  by (simp add: generate_reference_points_def gen_refs_recursive.simps py_truediv_def setitem_def)

lemma generate_default_total:
  "\<exists>ps. generate_reference_points M 4 = Inr ps"
proof (cases "1 \<le> M")
  case True
  then show ?thesis using generate_char[of M 4] by simp
next
  case False
  then have "\<not> 0 < M * 4" "int 0 \<noteq> M - 1" by simp_all
  then show ?thesis
    unfolding generate_reference_points_def
    by (subst gen_refs_recursive.simps, subst gen_refs_loop.simps) simp
qed




subsection \<open>The last coordinate\<close>

text \<open>
  Claim C10. For \<open>M \<ge> 2\<close> objectives every point that the generator returns has a strictly
  positive last coordinate, at least \<open>1 / (M * H)\<close>, and the lattice point \<open>(1, 0, \<dots>, 0)\<close>,
  whose last coordinate is 0, is not among them: the returned set is not the complete
  simplex lattice.
\<close>

theorem last_coordinate_positive:
  assumes "2 \<le> M"
  shows "\<exists>ps. generate_reference_points M H = Inr ps
            \<and> (\<forall>p\<in>set ps. coordinates p \<noteq> [] \<and> 0 < last (coordinates p)
                   \<and> 1 / of_int (M * H) \<le> last (coordinates p))
            \<and> ReferencePoint (1 # replicate (nat M - 1) 0) \<notin> set ps"
proof (cases "H \<le> 0")
  case True
  then show ?thesis using generate_nonpositive[OF assms] by simp
next
  case False
  then have H: "1 \<le> H" by simp
  have M: "1 \<le> M" using assms by simp
  have pos: "0 < M * H" using assms H by simp
  from generate_points[OF M H] obtain ps where ps: "generate_reference_points M H = Inr ps"
    and each: "\<And>p. p \<in> set ps \<Longrightarrow> \<exists>c. coordinates p = map (\<lambda>k. of_int k / of_int (M * H)) c
                   \<and> length c = nat M \<and> sum_list c = M * H \<and> (\<forall>k\<in>set c. 0 \<le> k)
                   \<and> c \<noteq> [] \<and> 1 \<le> last c"
    by blast
  have last_pos: "coordinates p \<noteq> [] \<and> 0 < last (coordinates p)
          \<and> 1 / of_int (M * H) \<le> last (coordinates p)" if "p \<in> set ps" for p
  proof -
    from each[OF that] obtain c where c: "coordinates p = map (\<lambda>k. of_int k / of_int (M * H)) c"
      "c \<noteq> []" "1 \<le> last c" by blast
    have l: "last (coordinates p) = of_int (last c) / of_int (M * H)"
      using c by (simp add: last_map)
    have "(1 :: rat) \<le> of_int (last c)" using c(3) by simp
    have rpos: "(0 :: rat) < of_int (M * H)" using pos by (simp only: of_int_0_less_iff)
    have "(1 :: rat) / of_int (M * H) \<le> of_int (last c) / of_int (M * H)"
      by (rule divide_right_mono[OF \<open>1 \<le> of_int (last c)\<close> less_imp_le[OF rpos]])
    moreover have "(0 :: rat) < 1 / of_int (M * H)" using rpos by (simp only: zero_less_divide_1_iff)
    ultimately show ?thesis using c l by simp
  qed
  have "ReferencePoint (1 # replicate (nat M - 1) 0) \<notin> set ps"
  proof
    assume "ReferencePoint (1 # replicate (nat M - 1) 0) \<in> set ps"
    from last_pos[OF this] have "0 < last (1 # replicate (nat M - 1) (0 :: rat))" by simp
    moreover obtain n where n: "nat M - 1 = Suc n" using assms by (cases "nat M - 1") auto
    have "last (1 # replicate (nat M - 1) (0 :: rat)) = 0" unfolding n by simp
    ultimately show False by (simp only: less_irrefl)
  qed
  with ps last_pos show ?thesis by blast
qed

text \<open>Claim C10 at \<open>M = 2\<close>, \<open>H = 4\<close>: the bound is \<open>1 / 8\<close> and \<open>(1, 0)\<close> is not generated.\<close>

theorem last_coordinate_positive_witness:
  "\<exists>ps. generate_reference_points 2 4 = Inr ps
      \<and> (\<forall>p\<in>set ps. coordinates p \<noteq> [] \<and> 0 < last (coordinates p)
             \<and> 1 / 8 \<le> last (coordinates p))
      \<and> ReferencePoint [1, 0] \<notin> set ps"
  using last_coordinate_positive[of 2 4] by simp

subsection \<open>Population size\<close>

lemma population_size_loop_spec:
  "population_size_loop n mod 4 = 0 \<and> n \<le> population_size_loop n \<and> population_size_loop n < n + 4"
proof (induction n rule: population_size_loop.induct)
  case (1 n)
  show ?case
  proof (cases "0 < n mod 4")
    case True
    then have "population_size_loop n = population_size_loop (n + 1)"
      by (subst population_size_loop.simps) simp
    moreover from "1.IH"[OF True] have "population_size_loop (n + 1) mod 4 = 0"
      "n + 1 \<le> population_size_loop (n + 1)" "population_size_loop (n + 1) < n + 1 + 4"
      by simp_all
    ultimately show ?thesis using True by presburger
  next
    case False
    then have "population_size_loop n = n" by (subst population_size_loop.simps) simp
    moreover have "n mod 4 = 0" using False by presburger
    ultimately show ?thesis by simp
  qed
qed

text \<open>
  Claim C5. The constructor always succeeds; it stores the generated reference points and sets
  \<open>population_size\<close> to the smallest multiple of 4 that is greater than or equal to their
  count, and \<open>offspring_population_size\<close> to the same value.
\<close>

theorem population_size_next_multiple_of_4:
  "\<exists>points alg. generate_reference_points (number_of_objectives prob) 4 = Inr points
      \<and> NSGAIII_init self prob c = Inr alg
      \<and> reference_points alg = points
      \<and> population_size alg mod 4 = 0
      \<and> int (length points) \<le> population_size alg
      \<and> (\<forall>m. m mod 4 = 0 \<and> int (length points) \<le> m \<longrightarrow> population_size alg \<le> m)
      \<and> offspring_population_size alg = population_size alg"
proof -
  obtain points where g: "generate_reference_points (number_of_objectives prob) 4 = Inr points"
    using generate_default_total by blast
  let ?n = "int (length points)"
  let ?alg = "self\<lparr>dominance_comparator := c, reference_points := points,
                     population_size := population_size_loop ?n,
                     offspring_population_size := population_size_loop ?n\<rparr>"
  have i: "NSGAIII_init self prob c = Inr ?alg"
    using g by (simp add: NSGAIII_init_def Let_def)
  have s: "population_size_loop ?n mod 4 = 0" "?n \<le> population_size_loop ?n"
    "population_size_loop ?n < ?n + 4"
    using population_size_loop_spec[of ?n] by simp_all
  have "population_size_loop ?n \<le> m" if "m mod 4 = 0 \<and> ?n \<le> m" for m
    using that s by presburger
  with g i s show ?thesis by simp
qed

text \<open>Claim C5 for one objective: one reference point, and a population size of 4.\<close>

theorem population_size_next_multiple_of_4_witness:
  "\<exists>alg. NSGAIII_init
       \<lparr>problem = \<lparr>number_of_objectives = 2\<rparr>, solutions = [] :: int list list,
        dominance_comparator = (), reference_points = [], population_size = 0,
        offspring_population_size = 0\<rparr>
       \<lparr>number_of_objectives = 1\<rparr> () = Inr alg
     \<and> reference_points alg = [ReferencePoint [1]]
     \<and> population_size alg = 4
     \<and> (\<forall>m. m mod 4 = 0 \<and> 1 \<le> m \<longrightarrow> population_size alg \<le> m)
     \<and> offspring_population_size alg = 4"
proof -
  let ?self = "\<lparr>problem = \<lparr>number_of_objectives = 2\<rparr>, solutions = [] :: int list list,
        dominance_comparator = (), reference_points = [], population_size = 0,
        offspring_population_size = 0\<rparr>"
  from population_size_next_multiple_of_4[of "\<lparr>number_of_objectives = 1\<rparr>" ?self "()"]
  obtain alg where a: "NSGAIII_init ?self \<lparr>number_of_objectives = 1\<rparr> () = Inr alg"
    "reference_points alg = [ReferencePoint [1]]"
    "population_size alg mod 4 = 0" "1 \<le> population_size alg"
    "\<forall>m. m mod 4 = 0 \<and> 1 \<le> m \<longrightarrow> population_size alg \<le> m"
    "offspring_population_size alg = population_size alg"
    by (auto simp: generate_single_objective)
  from a(5)[rule_format, of 4] have "population_size alg \<le> 4" by simp
  with a(3,4) have "population_size alg = 4" by presburger
  with a show ?thesis by auto
qed

text \<open>
  Claim C6 says that \<open>M = 3\<close> and \<open>H = 4\<close> give 15 points and a population size of 16. The
  code returns 78 points, \<open>C(13, 2)\<close>, and the constructor derives a population size of 80:
  the recursion hands out \<open>M * H = 12\<close> units and its loops over \<^verbatim>\<open>range(left)\<close> stop one
  short, as for claim C1.
\<close>

theorem three_objectives_count:
  "\<exists>ps alg. generate_reference_points 3 4 = Inr ps \<and> length ps = 78
      \<and> NSGAIII_init self \<lparr>number_of_objectives = 3\<rparr> c = Inr alg
      \<and> reference_points alg = ps \<and> population_size alg = 80"
proof -
  obtain ps where ps: "generate_reference_points 3 4 = Inr ps"
    and "length ps = nat (3 * 4 + 3 - 2) choose nat (3 - 1)"
    using generate_length[of 3 4] by auto
  then have l: "length ps = 78" by (simp add: eval_nat_numeral)
  have "population_size_loop 78 = 80"
    by (simp add: population_size_loop.simps)
  then show ?thesis using ps l by (simp add: NSGAIII_init_def Let_def)
qed

subsection \<open>The replacement loop\<close>

lemma take_Suc_concat:
  "idx < length fronts \<Longrightarrow> concat (take (Suc idx) fronts) = concat (take idx fronts) @ fronts ! idx"
  by (simp add: take_Suc_conv_app_nth)

lemma replacement_loop_structure:
  assumes "replacement_loop P fronts idx pop = Inr (idx', pop')"
    and "pop = concat (take idx fronts)"
  shows "idx \<le> idx' \<and> pop' = concat (take idx' fronts)
           \<and> (\<forall>j. idx \<le> j \<and> j < idx' \<longrightarrow>
                 j < length fronts
                 \<and> int (length (fronts ! j)) < P - int (length (concat (take j fronts))))
           \<and> (int (length pop') < P \<longrightarrow>
                 idx' < length fronts \<and> P - int (length pop') \<le> int (length (fronts ! idx')))"
  using assms
proof (induction P fronts idx pop rule: replacement_loop.induct)
  case (1 P fronts idx pop)
  show ?case
  proof (cases "int (length pop) < P")
    case False
    then have "replacement_loop P fronts idx pop = Inr (idx, pop)"
      by (subst replacement_loop.simps) simp
    with "1.prems" False show ?thesis by simp
  next
    case True
    show ?thesis
    proof (cases "idx < length fronts")
      case False
      then have "replacement_loop P fronts idx pop = Inl InvalidRank"
        using True by (subst replacement_loop.simps) (simp add: get_subfront_def)
      with "1.prems" show ?thesis by simp
    next
      case lt: True
      then have g: "get_subfront fronts idx = Inr (fronts ! idx)" by (simp add: get_subfront_def)
      show ?thesis
      proof (cases "int (length (fronts ! idx)) < P - int (length pop)")
        case False
        then have "replacement_loop P fronts idx pop = Inr (idx, pop)"
          using True g by (subst replacement_loop.simps) simp
        with "1.prems" False lt show ?thesis by simp
      next
        case fits: True
        have step: "replacement_loop P fronts idx pop
                      = replacement_loop P fronts (idx + 1) (pop @ fronts ! idx)"
          using True g fits by (subst replacement_loop.simps) simp
        have inv: "pop @ fronts ! idx = concat (take (idx + 1) fronts)"
          using "1.prems"(2) lt by (simp add: take_Suc_concat)
        have r: "replacement_loop P fronts (idx + 1) (pop @ fronts ! idx) = Inr (idx', pop')"
          using step "1.prems"(1) by simp
        note ih = "1.IH"[OF True g fits r inv]
        have a: "idx \<le> idx'" using ih by simp
        have b: "pop' = concat (take idx' fronts)" using ih by blast
        have c: "j < length fronts
                 \<and> int (length (fronts ! j)) < P - int (length (concat (take j fronts)))"
          if "idx \<le> j \<and> j < idx'" for j
        proof (cases "j = idx")
          case True
          then show ?thesis using lt fits "1.prems"(2) by simp
        next
          case False
          then have "idx + 1 \<le> j \<and> j < idx'" using that by simp
          then show ?thesis using ih by blast
        qed
        have d: "int (length pop') < P \<longrightarrow>
                 idx' < length fronts \<and> P - int (length pop') \<le> int (length (fronts ! idx'))"
          using ih by blast
        from a b c d show ?thesis by blast
      qed
    qed
  qed
qed

lemma replacement_loop_returns:
  assumes "int (length pop) < P" and "pop = concat (take idx fronts)"
    and "P \<le> int (length (concat fronts))"
  shows "\<exists>idx' pop'. replacement_loop P fronts idx pop = Inr (idx', pop') \<and> int (length pop') < P"
  using assms
proof (induction P fronts idx pop rule: replacement_loop.induct)
  case (1 P fronts idx pop)
  have lt: "idx < length fronts"
  proof (rule ccontr)
    assume "\<not> idx < length fronts"
    then have "pop = concat fronts" using "1.prems"(2) by simp
    with "1.prems" show False by simp
  qed
  then have g: "get_subfront fronts idx = Inr (fronts ! idx)" by (simp add: get_subfront_def)
  show ?case
  proof (cases "int (length (fronts ! idx)) < P - int (length pop)")
    case False
    then have "replacement_loop P fronts idx pop = Inr (idx, pop)"
      using "1.prems"(1) g by (subst replacement_loop.simps) simp
    with "1.prems"(1) show ?thesis by simp
  next
    case fits: True
    have step: "replacement_loop P fronts idx pop
                  = replacement_loop P fronts (idx + 1) (pop @ fronts ! idx)"
      using "1.prems"(1) g fits by (subst replacement_loop.simps) simp
    have inv: "pop @ fronts ! idx = concat (take (idx + 1) fronts)"
      using "1.prems"(2) lt by (simp add: take_Suc_concat)
    have small: "int (length (pop @ fronts ! idx)) < P" using fits by simp
    from "1.IH"[OF "1.prems"(1) g fits small inv "1.prems"(3)] step show ?thesis by simp
  qed
qed

lemma selection_call_structure:
  assumes "1 \<le> population_size self"
    and "population_size self \<le> int (length (concat fronts))"
    and "fronts = compute (dominance_comparator self) (population @ offspring_population)"
  shows "\<exists>idx. idx < length fronts
           \<and> selection_call compute self population offspring_population
               = Inr (idx, concat (take idx fronts),
                      population_size self - int (length (concat (take idx fronts))), fronts ! idx)
           \<and> (\<forall>j<idx. int (length (fronts ! j))
                          < population_size self - int (length (concat (take j fronts))))
           \<and> int (length (concat (take idx fronts))) < population_size self
           \<and> population_size self - int (length (concat (take idx fronts)))
                 \<le> int (length (fronts ! idx))"
proof -
  let ?P = "population_size self"
  have e: "int (length ([] :: 'a list)) < ?P" using assms(1) by simp
  have z: "([] :: 'a list) = concat (take 0 fronts)" by simp
  from replacement_loop_returns[OF e z assms(2)]
  obtain idx' pop' where r: "replacement_loop ?P fronts 0 [] = Inr (idx', pop')"
    and small: "int (length pop') < ?P" by blast
  note s = replacement_loop_structure[OF r z]
  have p: "pop' = concat (take idx' fronts)" using s by blast
  have i: "idx' < length fronts" using s small by blast
  have k: "?P - int (length pop') \<le> int (length (fronts ! idx'))" using s small by blast
  have a: "\<forall>j<idx'. int (length (fronts ! j)) < ?P - int (length (concat (take j fronts)))"
    using s by blast
  have "selection_call compute self population offspring_population
          = Inr (idx', pop', ?P - int (length pop'), fronts ! idx')"
    using r i unfolding selection_call_def assms(3)[symmetric]
    by (simp add: Let_def get_subfront_def)
  then show ?thesis using i a small k unfolding p by blast
qed

lemma example_fronts_overflow:
  "compute_ranking pareto_dominates [[3], [1], [4], [1], [5], [9], [2], [3]]
     = [[[1], [1]], [[2]], [[3], [3]], [[4]], [[5]], [[9]]]"
  by code_simp

lemma example_fronts_exact:
  "compute_ranking pareto_dominates [[3], [1], [4], [1], [5], [9], [2], [6]]
     = [[[1], [1]], [[2]], [[3]], [[4]], [[5]], [[6]], [[9]]]"
  by code_simp

lemma example_selection_call_overflow:
  "selection_call compute_ranking example_algorithm [[3], [1], [4], [1]] [[5], [9], [2], [3]]
     = Inr (2, [[1], [1], [2]], 1, [[3], [3]])"
  unfolding selection_call_def example_algorithm_def
  by (simp add: example_fronts_overflow replacement_loop.simps get_subfront_def)

lemma example_selection_call_exact:
  "selection_call compute_ranking example_algorithm [[3], [1], [4], [1]] [[5], [9], [2], [6]]
     = Inr (2, [[1], [1], [2]], 1, [[3]])"
  unfolding selection_call_def example_algorithm_def
  by (simp add: example_fronts_exact replacement_loop.simps get_subfront_def)

lemma first_k_contract: "selection_contract first_k"
  unfolding selection_contract_def first_k_def
  by (auto dest: in_set_takeD)

subsection \<open>The arguments of the selection\<close>

text \<open>
  Claim C9. Let the population size be at least 1, the combined population hold at least
  that many solutions, and the fronts of the ranking hold as many solutions as the combined
  population. Then \<open>replacement\<close> reaches the selection, which it calls with the front at
  \<open>ranking_index\<close> and with \<open>k = population_size - |pop|\<close>, and \<open>1 \<le> k \<le> |front|\<close>.
\<close>

theorem selection_k_in_range:
  assumes "1 \<le> population_size self"
    and "population_size self \<le> int (length (population @ offspring_population))"
    and "length (concat (compute (dominance_comparator self) (population @ offspring_population)))
           = length (population @ offspring_population)"
  shows "\<exists>ranking_index pop k front.
           selection_call compute self population offspring_population
             = Inr (ranking_index, pop, k, front)
           \<and> get_subfront (compute (dominance_comparator self) (population @ offspring_population))
                 ranking_index = Inr front
           \<and> k = population_size self - int (length pop)
           \<and> 1 \<le> k \<and> k \<le> int (length front)
           \<and> replacement compute execute self population offspring_population
               = (case execute (number_of_objectives (problem self)) (reference_points self) k front of
                    Inl e \<Rightarrow> Inl e
                  | Inr selected \<Rightarrow> Inr (pop @ selected))"
proof -
  define fronts where "fronts = compute (dominance_comparator self) (population @ offspring_population)"
  have c: "population_size self \<le> int (length (concat fronts))"
    using assms(2,3) unfolding fronts_def by simp
  from selection_call_structure[of self fronts compute population offspring_population,
      OF assms(1) c fronts_def]
  obtain idx where idx: "idx < length fronts"
    and s: "selection_call compute self population offspring_population
               = Inr (idx, concat (take idx fronts),
                      population_size self - int (length (concat (take idx fronts))), fronts ! idx)"
    and small: "int (length (concat (take idx fronts))) < population_size self"
    and k: "population_size self - int (length (concat (take idx fronts)))
                 \<le> int (length (fronts ! idx))"
    by blast
  have g: "get_subfront fronts idx = Inr (fronts ! idx)" using idx by (simp add: get_subfront_def)
  have r: "replacement compute execute self population offspring_population
               = (case execute (number_of_objectives (problem self)) (reference_points self)
                         (population_size self - int (length (concat (take idx fronts))))
                         (fronts ! idx) of
                    Inl e \<Rightarrow> Inl e
                  | Inr selected \<Rightarrow> Inr (concat (take idx fronts) @ selected))"
    unfolding replacement_def s by simp
  have "1 \<le> population_size self - int (length (concat (take idx fronts)))" using small by simp
  with s g k r show ?thesis unfolding fronts_def by blast
qed

text \<open>
  Claim C9 on eight solutions and a population size of 4: the fronts are \<open>{1, 1}\<close>, \<open>{2}\<close>,
  \<open>{3, 3}\<close>, \<dots>, and the selection is called on \<open>{3, 3}\<close> with \<open>k = 1\<close>.
\<close>

theorem selection_k_in_range_witness:
  "\<exists>ranking_index pop k front.
      selection_call compute_ranking example_algorithm [[3], [1], [4], [1]] [[5], [9], [2], [3]]
        = Inr (ranking_index, pop, k, front)
      \<and> get_subfront (compute_ranking pareto_dominates ([[3], [1], [4], [1]] @ [[5], [9], [2], [3]]))
            ranking_index = Inr front
      \<and> k = 4 - int (length pop)
      \<and> 1 \<le> k \<and> k \<le> int (length front)"
proof -
  have "\<exists>ranking_index pop k front.
      selection_call compute_ranking example_algorithm [[3], [1], [4], [1]] [[5], [9], [2], [3]]
        = Inr (ranking_index, pop, k, front)
      \<and> get_subfront (compute_ranking (dominance_comparator example_algorithm)
             ([[3], [1], [4], [1]] @ [[5], [9], [2], [3]])) ranking_index = Inr front
      \<and> k = population_size example_algorithm - int (length pop)
      \<and> 1 \<le> k \<and> k \<le> int (length front)
      \<and> replacement compute_ranking first_k example_algorithm [[3], [1], [4], [1]] [[5], [9], [2], [3]]
               = (case first_k (number_of_objectives (problem example_algorithm))
                         (reference_points example_algorithm) k front of
                    Inl e \<Rightarrow> Inl e
                  | Inr selected \<Rightarrow> Inr (pop @ selected))"
    by (rule selection_k_in_range)
       (simp_all add: example_algorithm_def example_fronts_overflow)
  then show ?thesis by (simp add: example_algorithm_def) blast
qed

subsection \<open>Size of the new population\<close>

text \<open>
  Claim C3. Under the hypotheses of claim C9, and when the selection meets its contract of
  returning exactly \<open>k\<close> solutions of the front it is given, \<open>replacement\<close> returns exactly
  \<open>population_size\<close> solutions.
\<close>

theorem replacement_size:
  assumes "1 \<le> population_size self"
    and "population_size self \<le> int (length (population @ offspring_population))"
    and "length (concat (compute (dominance_comparator self) (population @ offspring_population)))
           = length (population @ offspring_population)"
    and "selection_contract execute"
  shows "\<exists>survivors. replacement compute execute self population offspring_population = Inr survivors
            \<and> int (length survivors) = population_size self"
proof -
  define fronts where "fronts = compute (dominance_comparator self) (population @ offspring_population)"
  have c: "population_size self \<le> int (length (concat fronts))"
    using assms(2,3) unfolding fronts_def by simp
  from selection_call_structure[of self fronts compute population offspring_population,
      OF assms(1) c fronts_def]
  obtain idx where s: "selection_call compute self population offspring_population
               = Inr (idx, concat (take idx fronts),
                      population_size self - int (length (concat (take idx fronts))), fronts ! idx)"
    and small: "int (length (concat (take idx fronts))) < population_size self"
    and k: "population_size self - int (length (concat (take idx fronts)))
                 \<le> int (length (fronts ! idx))"
    by blast
  let ?pop = "concat (take idx fronts)"
  let ?k = "population_size self - int (length ?pop)"
  have "0 \<le> ?k \<and> ?k \<le> int (length (fronts ! idx))" using small k by simp
  with assms(4) obtain selected
    where e: "execute (number_of_objectives (problem self)) (reference_points self) ?k (fronts ! idx)
                = Inr selected"
      and l: "int (length selected) = ?k"
    unfolding selection_contract_def by blast
  have "replacement compute execute self population offspring_population = Inr (?pop @ selected)"
    unfolding replacement_def s by (simp add: e)
  moreover have "int (length (?pop @ selected)) = population_size self" using l by simp
  ultimately show ?thesis by blast
qed

text \<open>Claim C3 on eight solutions and a population size of 4.\<close>

theorem replacement_size_witness:
  "\<exists>survivors. replacement compute_ranking first_k example_algorithm
                   [[3], [1], [4], [1]] [[5], [9], [2], [3]] = Inr survivors
      \<and> int (length survivors) = 4"
proof -
  have "\<exists>survivors. replacement compute_ranking first_k example_algorithm
                   [[3], [1], [4], [1]] [[5], [9], [2], [3]] = Inr survivors
      \<and> int (length survivors) = population_size example_algorithm"
    by (rule replacement_size)
       (simp_all add: example_algorithm_def example_fronts_overflow first_k_contract)
  then show ?thesis by (simp add: example_algorithm_def)
qed

subsection \<open>Which fronts are accumulated\<close>

text \<open>
  Claim C4, as amended. \<open>replacement\<close> ranks the combined population and accumulates the
  fronts \<open>0, \<dots>, ranking_index - 1\<close> whole, each of them strictly smaller than the number of
  slots that were left when it was reached. The front at \<open>ranking_index\<close> is the first one
  that has at least as many solutions as there are slots left, so it fills the population
  exactly or overflows it. The selection is always called, once, on that front and with
  \<open>k\<close> the number of slots left, and its result is appended.
\<close>

theorem replacement_accumulates_fronts:
  assumes "1 \<le> population_size self"
    and "population_size self \<le> int (length (population @ offspring_population))"
    and "length (concat (compute (dominance_comparator self) (population @ offspring_population)))
           = length (population @ offspring_population)"
  shows "\<exists>fronts ranking_index pop k.
           fronts = compute (dominance_comparator self) (population @ offspring_population)
           \<and> ranking_index < length fronts
           \<and> pop = concat (take ranking_index fronts)
           \<and> k = population_size self - int (length pop)
           \<and> (\<forall>j<ranking_index.
                 int (length (concat (take j fronts))) + int (length (fronts ! j))
                   < population_size self)
           \<and> population_size self \<le> int (length pop) + int (length (fronts ! ranking_index))
           \<and> selection_call compute self population offspring_population
               = Inr (ranking_index, pop, k, fronts ! ranking_index)
           \<and> replacement compute execute self population offspring_population
               = (case execute (number_of_objectives (problem self)) (reference_points self) k
                         (fronts ! ranking_index) of
                    Inl e \<Rightarrow> Inl e
                  | Inr selected \<Rightarrow> Inr (pop @ selected))"
proof -
  define fronts where "fronts = compute (dominance_comparator self) (population @ offspring_population)"
  have c: "population_size self \<le> int (length (concat fronts))"
    using assms(2,3) unfolding fronts_def by simp
  from selection_call_structure[of self fronts compute population offspring_population,
      OF assms(1) c fronts_def]
  obtain idx where idx: "idx < length fronts"
    and s: "selection_call compute self population offspring_population
               = Inr (idx, concat (take idx fronts),
                      population_size self - int (length (concat (take idx fronts))), fronts ! idx)"
    and a: "\<forall>j<idx. int (length (fronts ! j))
                          < population_size self - int (length (concat (take j fronts)))"
    and k: "population_size self - int (length (concat (take idx fronts)))
                 \<le> int (length (fronts ! idx))"
    by blast
  have a': "\<forall>j<idx. int (length (concat (take j fronts))) + int (length (fronts ! j))
                   < population_size self"
    using a by auto
  have k': "population_size self
              \<le> int (length (concat (take idx fronts))) + int (length (fronts ! idx))"
    using k by simp
  have r: "replacement compute execute self population offspring_population
               = (case execute (number_of_objectives (problem self)) (reference_points self)
                         (population_size self - int (length (concat (take idx fronts))))
                         (fronts ! idx) of
                    Inl e \<Rightarrow> Inl e
                  | Inr selected \<Rightarrow> Inr (concat (take idx fronts) @ selected))"
    unfolding replacement_def s by simp
  from idx s a' k' r show ?thesis unfolding fronts_def by blast
qed

text \<open>
  The amended claim C4 on eight solutions and a population size of 4: two fronts are
  accumulated, and the selection takes one of the two solutions of the third.
\<close>

theorem replacement_accumulates_fronts_witness:
  "\<exists>fronts ranking_index pop k.
      fronts = compute_ranking pareto_dominates ([[3], [1], [4], [1]] @ [[5], [9], [2], [3]])
      \<and> ranking_index < length fronts
      \<and> pop = concat (take ranking_index fronts)
      \<and> k = 4 - int (length pop)
      \<and> (\<forall>j<ranking_index.
            int (length (concat (take j fronts))) + int (length (fronts ! j)) < 4)
      \<and> 4 \<le> int (length pop) + int (length (fronts ! ranking_index))
      \<and> selection_call compute_ranking example_algorithm [[3], [1], [4], [1]] [[5], [9], [2], [3]]
          = Inr (ranking_index, pop, k, fronts ! ranking_index)
      \<and> replacement compute_ranking first_k example_algorithm
             [[3], [1], [4], [1]] [[5], [9], [2], [3]]
          = Inr (pop @ take (nat k) (fronts ! ranking_index))"
proof -
  have "\<exists>fronts ranking_index pop k.
           fronts = compute_ranking (dominance_comparator example_algorithm)
                      ([[3], [1], [4], [1]] @ [[5], [9], [2], [3]])
           \<and> ranking_index < length fronts
           \<and> pop = concat (take ranking_index fronts)
           \<and> k = population_size example_algorithm - int (length pop)
           \<and> (\<forall>j<ranking_index.
                 int (length (concat (take j fronts))) + int (length (fronts ! j))
                   < population_size example_algorithm)
           \<and> population_size example_algorithm
                 \<le> int (length pop) + int (length (fronts ! ranking_index))
           \<and> selection_call compute_ranking example_algorithm
                 [[3], [1], [4], [1]] [[5], [9], [2], [3]]
               = Inr (ranking_index, pop, k, fronts ! ranking_index)
           \<and> replacement compute_ranking first_k example_algorithm
                 [[3], [1], [4], [1]] [[5], [9], [2], [3]]
               = (case first_k (number_of_objectives (problem example_algorithm))
                         (reference_points example_algorithm) k (fronts ! ranking_index) of
                    Inl e \<Rightarrow> Inl e
                  | Inr selected \<Rightarrow> Inr (pop @ selected))"
    by (rule replacement_accumulates_fronts)
       (simp_all add: example_algorithm_def example_fronts_overflow)
  then show ?thesis
    unfolding first_k_def by (simp add: example_algorithm_def)
qed

text \<open>
  With the fronts \<open>{1, 1}\<close>, \<open>{2}\<close>, \<open>{3}\<close>, \<dots> and a population size of 4, the third front
  fits exactly: it does not overflow the population. The loop does not accumulate it; it is
  the front that the selection is called on, with \<open>k = 1\<close>.
\<close>

theorem replacement_accumulates_fronts_counterexample:
  "selection_call compute_ranking example_algorithm [[3], [1], [4], [1]] [[5], [9], [2], [6]]
     = Inr (2, [[1], [1], [2]], 1, [[3]])
   \<and> int (length ([[1], [1], [2 :: int]] @ [[3]])) = population_size example_algorithm
   \<and> replacement compute_ranking first_k example_algorithm [[3], [1], [4], [1]] [[5], [9], [2], [6]]
     = Inr ([[1], [1], [2]] @ [[3]])"
  unfolding replacement_def example_selection_call_exact
  by (simp add: example_algorithm_def first_k_def)

subsection \<open>The result\<close>

lemma dominance_count_zero:
  assumes "q < length xs"
  shows "dominance_count d xs [0..<length xs] q = 0 \<longleftrightarrow> \<not> (\<exists>t\<in>set xs. d t (xs ! q))"
proof -
  have "dominance_count d xs [0..<length xs] q = 0
          \<longleftrightarrow> (\<forall>p<length xs. \<not> d (xs ! p) (xs ! q))"
    unfolding dominance_count_def by (auto simp: filter_empty_conv)
  also have "\<dots> \<longleftrightarrow> \<not> (\<exists>t\<in>set xs. d t (xs ! q))"
    by (metis in_set_conv_nth)
  finally show ?thesis .
qed

lemma first_front:
  "map (\<lambda>q. xs ! q) (filter (\<lambda>q. dominance_count d xs [0..<length xs] q = 0) [0..<length xs])
     = filter (\<lambda>s. \<not> (\<exists>t\<in>set xs. d t s)) xs"
proof -
  have "filter (\<lambda>q. dominance_count d xs [0..<length xs] q = 0) [0..<length xs]
          = filter (\<lambda>q. \<not> (\<exists>t\<in>set xs. d t (xs ! q))) [0..<length xs]"
    by (rule filter_cong[OF refl]) (simp add: dominance_count_zero)
  then have "map (\<lambda>q. xs ! q) (filter (\<lambda>q. dominance_count d xs [0..<length xs] q = 0) [0..<length xs])
          = filter (\<lambda>s. \<not> (\<exists>t\<in>set xs. d t s)) (map (\<lambda>q. xs ! q) [0..<length xs])"
    by (simp add: filter_map comp_def)
  then show ?thesis by (simp add: map_nth)
qed

text \<open>
  Claim C8. \<open>get_result\<close> ranks the solutions of the algorithm and returns front 0, which
  holds, in their order, the solutions that no solution of the population dominates. When
  there is none, as for an empty population, front 0 does not exist and the call raises.
\<close>

theorem get_result_front_0:
  "get_result compute_ranking self =
     (let non_dominated = filter (\<lambda>s. \<not> (\<exists>t\<in>set (solutions self). dominance_comparator self t s))
                            (solutions self)
      in if non_dominated = [] then Inl InvalidRank else Inr non_dominated)"
proof -
  let ?xs = "solutions self" and ?d = "dominance_comparator self"
  let ?front = "filter (\<lambda>q. dominance_count ?d ?xs [0..<length ?xs] q = 0) [0..<length ?xs]"
  let ?nd = "filter (\<lambda>s. \<not> (\<exists>t\<in>set ?xs. ?d t s)) ?xs"
  have m: "map (\<lambda>q. ?xs ! q) ?front = ?nd" by (rule first_front)
  show ?thesis
  proof (cases "?front = []")
    case True
    then have "peel_fronts ?d ?xs [0..<length ?xs] = []"
      by (subst peel_fronts.simps) (simp add: Let_def)
    moreover have "?nd = []" using m True by simp
    ultimately show ?thesis
      by (simp add: get_result_def compute_ranking_def get_subfront_def Let_def)
  next
    case False
    then have "peel_fronts ?d ?xs [0..<length ?xs]
                 = ?front # peel_fronts ?d ?xs (filter (\<lambda>q. q \<notin> set ?front) [0..<length ?xs])"
      by (subst peel_fronts.simps) (simp add: Let_def)
    then have "get_result compute_ranking self = Inr (map (\<lambda>q. ?xs ! q) ?front)"
      by (simp add: get_result_def compute_ranking_def get_subfront_def)
    moreover have "?nd \<noteq> []" using m False by (metis map_is_Nil_conv)
    ultimately show ?thesis unfolding m by (simp add: Let_def)
  qed
qed

text \<open>Claim C8 on the solutions 3, 1, 4, 1 of one objective: the result is the two 1s.\<close>

theorem get_result_front_0_witness:
  "get_result compute_ranking example_algorithm = Inr [[1], [1]]"
  using get_result_front_0[of example_algorithm]
  by (simp add: example_algorithm_def pareto_dominates_def)

end
